theory Spec2Isabelle
  imports Complex_Main "HOL-Library.Multiset" "HOL-Library.Sublist"
begin

section \<open>Strings\<close>

text \<open>
  A Python \<open>str\<close> is a sequence of Unicode code points. The card layout tests code points
  against the range U+4E00 .. U+9FFF, which does not fit the 8-bit characters of
  \<^typ>\<open>string\<close>, so a string is modelled as the list of its code points.
\<close>

type_synonym ustr = "nat list"

text \<open>
  \<open>str.isspace\<close> on one code point: the characters Python's \<open>str.split()\<close> (no
  argument) treats as separators.
\<close>

definition isspace :: "nat \<Rightarrow> bool" where
  "isspace c \<longleftrightarrow>
     (9 \<le> c \<and> c \<le> 13) \<or> (28 \<le> c \<and> c \<le> 32) \<or> c = 133 \<or> c = 160 \<or> c = 5760 \<or>
     (8192 \<le> c \<and> c \<le> 8202) \<or> c = 8232 \<or> c = 8233 \<or> c = 8239 \<or> c = 8287 \<or> c = 12288"

text \<open>\<open>text.split()\<close>: the maximal runs of non-whitespace, in order; never an empty word.\<close>

fun split_acc :: "ustr \<Rightarrow> ustr \<Rightarrow> ustr list" where
  "split_acc w [] = (if w = [] then [] else [w])"
| "split_acc w (c # cs) =
     (if isspace c then (if w = [] then split_acc [] cs else w # split_acc [] cs)
      else split_acc (w @ [c]) cs)"

definition split_ws :: "ustr \<Rightarrow> ustr list" where
  "split_ws s = split_acc [] s"

text \<open>\<open>sep.join(xs)\<close>.\<close>

fun join :: "ustr \<Rightarrow> ustr list \<Rightarrow> ustr" where
  "join sep [] = []"
| "join sep [x] = x"
| "join sep (x # y # ys) = x @ sep @ join sep (y # ys)"

section \<open>Card layout: \<open>CardGenerator._wrap_text\<close>\<close>

text \<open>
  Of a Pillow font the layout code reads \<open>getbbox\<close> (the bounding box
  \<open>(left, top, right, bottom)\<close> of a rendered string), \<open>size\<close> and \<open>path\<close>; the last two
  are attributes that the built-in bitmap font does not have.
\<close>

record font =
  getbbox :: "ustr \<Rightarrow> int \<times> int \<times> int \<times> int"
  font_size :: "int option"
  font_path :: "ustr option"

text \<open>\<open>bbox = font.getbbox(s); width = bbox[2] - bbox[0]\<close>\<close>

definition text_width :: "font \<Rightarrow> ustr \<Rightarrow> int" where
  "text_width f s = (case getbbox f s of (x0, y0, x1, y1) \<Rightarrow> x1 - x0)"

text \<open>The test \<open>U+4E00 <= char <= U+9FFF\<close> of \<open>_wrap_text\<close>.\<close>

definition is_cjk :: "nat \<Rightarrow> bool" where
  "is_cjk c \<longleftrightarrow> 19968 \<le> c \<and> c \<le> 40959"

text \<open>
  The two loops of \<open>_wrap_text\<close>, with the loop state \<open>(lines, current_line)\<close> passed
  along; \<open>flush\<close> is the statement after each loop,
  \<open>if current_line: lines.append(current_line)\<close>.
\<close>

fun wrap_chars :: "font \<Rightarrow> int \<Rightarrow> ustr \<Rightarrow> ustr list \<Rightarrow> ustr \<Rightarrow> ustr list \<times> ustr" where
  "wrap_chars f max_width [] lines current_line = (lines, current_line)"
| "wrap_chars f max_width (char # rest) lines current_line =
     (let test_line = current_line @ [char] in
      if text_width f test_line \<le> max_width
      then wrap_chars f max_width rest lines test_line
      else wrap_chars f max_width rest
             (if current_line \<noteq> [] then lines @ [current_line] else lines) [char])"

fun wrap_words :: "font \<Rightarrow> int \<Rightarrow> ustr list \<Rightarrow> ustr list \<Rightarrow> ustr \<Rightarrow> ustr list \<times> ustr" where
  "wrap_words f max_width [] lines current_line = (lines, current_line)"
| "wrap_words f max_width (word # rest) lines current_line =
     (let test_line = (if current_line \<noteq> [] then current_line @ [32] @ word else word) in
      if text_width f test_line \<le> max_width
      then wrap_words f max_width rest lines test_line
      else wrap_words f max_width rest
             (if current_line \<noteq> [] then lines @ [current_line] else lines) word)"

definition flush :: "ustr list \<times> ustr \<Rightarrow> ustr list" where
  "flush st = (case st of (lines, current_line) \<Rightarrow>
     if current_line \<noteq> [] then lines @ [current_line] else lines)"

definition wrap_text :: "font \<Rightarrow> ustr \<Rightarrow> int \<Rightarrow> ustr list" where
  "wrap_text f text max_width =
     (if \<exists>char \<in> set text. is_cjk char
      then flush (wrap_chars f max_width text [] [])
      else flush (wrap_words f max_width (split_ws text) [] []))"

text \<open>A font for examples: every character is 10 wide.\<close>

definition mono10 :: font where
  "mono10 = \<lparr>getbbox = (\<lambda>s. (0, 0, 10 * int (length s), 12)),
             font_size = Some 12, font_path = None\<rparr>"

text \<open>
  Invariants of the two loops, over the lines that a flush of the loop state would give:
  no line is empty, a line fits \<open>max_width\<close> or is one unit, and between two consecutive
  lines the first unit of the second did not fit behind the first.
\<close>

definition chars_ok :: "font \<Rightarrow> int \<Rightarrow> ustr list \<Rightarrow> bool" where
  "chars_ok f mw L \<longleftrightarrow>
     (\<forall>l \<in> set L. l \<noteq> [] \<and> (text_width f l \<le> mw \<or> length l = 1)) \<and>
     successively (\<lambda>a b. mw < text_width f (a @ take 1 b)) L"

definition words_ok :: "font \<Rightarrow> int \<Rightarrow> ustr set \<Rightarrow> ustr list \<Rightarrow> bool" where
  "words_ok f mw U L \<longleftrightarrow>
     (\<forall>l \<in> set L. l \<noteq> [] \<and> takeWhile (\<lambda>c. \<not> isspace c) l \<in> U \<and>
        (text_width f l \<le> mw \<or> l \<in> U)) \<and>
     successively (\<lambda>a b. mw < text_width f (a @ [32] @ takeWhile (\<lambda>c. \<not> isspace c) b)) L"

section \<open>Properties of the string helpers\<close>

lemma split_acc_nonempty: "w' \<in> set (split_acc w s) \<Longrightarrow> w' \<noteq> []"
  by (induction w s rule: split_acc.induct) (auto split: if_splits)

lemma split_ws_nonempty: "w \<in> set (split_ws s) \<Longrightarrow> w \<noteq> []"
  unfolding split_ws_def by (rule split_acc_nonempty)

lemma split_acc_no_space:
  "w' \<in> set (split_acc w s) \<Longrightarrow> (\<And>d. d \<in> set w \<Longrightarrow> \<not> isspace d) \<Longrightarrow> c \<in> set w' \<Longrightarrow>
   \<not> isspace c"
proof (induction w s rule: split_acc.induct)
  case (1 w)
  then show ?case by (simp split: if_splits)
next
  case (2 w x xs)
  show ?case
  proof (cases "isspace x")
    case sp: True
    show ?thesis
    proof (cases "w = []")
      case True
      with sp "2.prems" have "w' \<in> set (split_acc [] xs)" by simp
      from "2.IH"(1) [OF sp True this _ "2.prems"(3)] show ?thesis by simp
    next
      case False
      with sp "2.prems"(1) have "w' = w \<or> w' \<in> set (split_acc [] xs)" by simp
      then show ?thesis
      proof
        assume "w' = w"
        with "2.prems" show ?thesis by simp
      next
        assume "w' \<in> set (split_acc [] xs)"
        from "2.IH"(2) [OF sp False this _ "2.prems"(3)] show ?thesis by simp
      qed
    qed
  next
    case False
    with "2.prems"(1) have m: "w' \<in> set (split_acc (w @ [x]) xs)" by simp
    have "\<And>d. d \<in> set (w @ [x]) \<Longrightarrow> \<not> isspace d" using False "2.prems"(2) by auto
    from "2.IH"(3) [OF False m this "2.prems"(3)] show ?thesis .
  qed
qed

lemma split_ws_no_space: "w \<in> set (split_ws s) \<Longrightarrow> c \<in> set w \<Longrightarrow> \<not> isspace c"
  unfolding split_ws_def using split_acc_no_space [of w "[]" s c] by simp

lemma join_snoc: "xs \<noteq> [] \<Longrightarrow> join sep (xs @ [y]) = join sep xs @ sep @ y"
  by (induction sep xs rule: join.induct) auto

subsection \<open>Loop lemmas for the content\<close>

lemma wrap_chars_concat:
  "wrap_chars f mw cs lines cur = (ls, c) \<Longrightarrow> concat ls @ c = concat lines @ cur @ cs"
  by (induction cs arbitrary: lines cur) (auto simp: Let_def split: if_splits)

lemma concat_flush: "concat (flush (ls, c)) = concat ls @ c"
  by (simp add: flush_def)

lemma wrap_chars_content: "concat (flush (wrap_chars f mw text [] [])) = text"
proof -
  obtain ls c where r: "wrap_chars f mw text [] [] = (ls, c)" by (cases "wrap_chars f mw text [] []")
  from wrap_chars_concat [OF r] show ?thesis by (simp add: r concat_flush)
qed

lemma join_flush_word:
  "w \<noteq> [] \<Longrightarrow> join sep (flush (flush (ls, c), w) @ ws) = join sep (flush (ls, c) @ w # ws)"
  by (simp add: flush_def)

lemma join_merge:
  "join sep (ls @ (c @ sep @ w) # ws) = join sep (ls @ c # w # ws)"
proof (induction sep ls rule: join.induct)
  case (1 sep)
  then show ?case by (cases ws) auto
next
  case (2 sep x)
  then show ?case by (cases ws) auto
next
  case (3 sep x y ys)
  then show ?case by simp
qed

lemma wrap_words_join:
  "\<forall>w \<in> set ws. w \<noteq> [] \<Longrightarrow>
   join [32] (flush (wrap_words f mw ws lines cur)) = join [32] (flush (lines, cur) @ ws)"
proof (induction ws arbitrary: lines cur)
  case Nil
  then show ?case by simp
next
  case (Cons w ws)
  then have w: "w \<noteq> []" and ws: "\<forall>w \<in> set ws. w \<noteq> []" by auto
  show ?case
  proof (cases "cur = []")
    case True
    then show ?thesis using Cons.IH [OF ws] w by (simp add: flush_def)
  next
    case False
    show ?thesis
    proof (cases "text_width f (cur @ [32] @ w) \<le> mw")
      case True
      then show ?thesis
        using Cons.IH [OF ws, of lines "cur @ [32] @ w"] False join_merge [of "[32]" lines cur w ws]
        by (simp add: flush_def)
    next
      case nofit: False
      then show ?thesis
        using Cons.IH [OF ws, of "lines @ [cur]" w] False w by (simp add: flush_def)
    qed
  qed
qed

lemma wrap_words_content:
  "join [32] (flush (wrap_words f mw (split_ws text) [] [])) = join [32] (split_ws text)"
  using wrap_words_join [of "split_ws text" f mw "[]" "[]"] split_ws_nonempty
  by (auto simp: flush_def)

section \<open>Wrapping is greedy\<close>

lemma successively_snoc_cong:
  "successively R (xs @ [y]) \<Longrightarrow> (\<And>a. R a y \<Longrightarrow> R a y') \<Longrightarrow> successively R (xs @ [y'])"
  by (auto simp: successively_append_iff)

lemma successively_snoc2:
  "successively R (xs @ [y]) \<Longrightarrow> R y z \<Longrightarrow> successively R ((xs @ [y]) @ [z])"
  by (auto simp: successively_append_iff)

lemma wrap_chars_inv:
  "(cur = [] \<longrightarrow> lines = []) \<Longrightarrow> chars_ok f mw (flush (lines, cur)) \<Longrightarrow>
   chars_ok f mw (flush (wrap_chars f mw cs lines cur))"
proof (induction cs arbitrary: lines cur)
  case Nil
  then show ?case by simp
next
  case (Cons c cs)
  show ?case
  proof (cases "text_width f (cur @ [c]) \<le> mw")
    case fits: True
    have "chars_ok f mw (flush (lines, cur @ [c]))"
    proof (cases "cur = []")
      case True
      with Cons.prems fits show ?thesis by (simp add: flush_def chars_ok_def)
    next
      case False
      with Cons.prems(2) have ok: "chars_ok f mw (lines @ [cur])" by (simp add: flush_def)
      have "successively (\<lambda>a b. mw < text_width f (a @ take 1 b)) (lines @ [cur @ [c]])"
      proof (rule successively_snoc_cong [of _ lines cur])
        show "successively (\<lambda>a b. mw < text_width f (a @ take 1 b)) (lines @ [cur])"
          using ok by (simp add: chars_ok_def)
      next
        fix a assume "mw < text_width f (a @ take 1 cur)"
        then show "mw < text_width f (a @ take 1 (cur @ [c]))" using False by (cases cur) simp_all
      qed
      with ok fits show ?thesis by (auto simp: flush_def chars_ok_def)
    qed
    from Cons.IH [OF _ this] fits show ?thesis by (simp add: Let_def)
  next
    case nofit: False
    show ?thesis
    proof (cases "cur = []")
      case True
      with Cons.prems have "chars_ok f mw (flush ([], [c]))" by (simp add: flush_def chars_ok_def)
      from Cons.IH [OF _ this] nofit True Cons.prems(1) show ?thesis by (simp add: Let_def)
    next
      case False
      with Cons.prems(2) have ok: "chars_ok f mw (lines @ [cur])" by (simp add: flush_def)
      have "successively (\<lambda>a b. mw < text_width f (a @ take 1 b)) ((lines @ [cur]) @ [[c]])"
        using ok nofit by (intro successively_snoc2) (simp_all add: chars_ok_def)
      with ok have "chars_ok f mw (flush (lines @ [cur], [c]))"
        by (auto simp: flush_def chars_ok_def)
      from Cons.IH [OF _ this] nofit False show ?thesis by (simp add: Let_def)
    qed
  qed
qed

lemma isspace_32: "isspace 32"
  by (simp add: isspace_def)

lemma first_word_append:
  "takeWhile (\<lambda>c. \<not> isspace c) (cur @ [32] @ w) = takeWhile (\<lambda>c. \<not> isspace c) cur"
  by (induction cur) (simp_all add: isspace_32)

lemma first_word_self:
  "(\<And>c. c \<in> set w \<Longrightarrow> \<not> isspace c) \<Longrightarrow> takeWhile (\<lambda>c. \<not> isspace c) w = w"
  by (simp add: takeWhile_eq_all_conv)

lemma wrap_words_inv:
  assumes U: "\<And>w. w \<in> U \<Longrightarrow> w \<noteq> [] \<and> (\<forall>c \<in> set w. \<not> isspace c)"
  shows "set ws \<subseteq> U \<Longrightarrow> (cur = [] \<longrightarrow> lines = []) \<Longrightarrow> words_ok f mw U (flush (lines, cur)) \<Longrightarrow>
   words_ok f mw U (flush (wrap_words f mw ws lines cur))"
proof (induction ws arbitrary: lines cur)
  case Nil
  then show ?case by simp
next
  case (Cons w ws)
  let ?fw = "takeWhile (\<lambda>c. \<not> isspace c)"
  let ?R = "\<lambda>a b. mw < text_width f (a @ [32] @ ?fw b)"
  from Cons.prems(1) have wU: "w \<in> U" and ws: "set ws \<subseteq> U" by simp_all
  from U [OF wU] have wne: "w \<noteq> []" and fw: "?fw w = w" by (simp_all add: takeWhile_eq_all_conv)
  from wU have fwU: "?fw w \<in> U" by (simp only: fw)
  show ?case
  proof (cases "cur = []")
    case True
    with Cons.prems(2) have l: "lines = []" by simp
    have ok: "words_ok f mw U (flush ([], w))"
      using wne wU fwU by (simp add: flush_def words_ok_def)
    from Cons.IH [OF ws _ ok] wne True l show ?thesis by (simp add: Let_def)
  next
    case False
    with Cons.prems(3) have ok: "words_ok f mw U (lines @ [cur])" by (simp add: flush_def)
    show ?thesis
    proof (cases "text_width f (cur @ [32] @ w) \<le> mw")
      case fits: True
      have s: "successively ?R (lines @ [cur @ [32] @ w])"
      proof (rule successively_snoc_cong [of _ lines cur])
        show "successively ?R (lines @ [cur])" using ok by (simp add: words_ok_def)
      next
        fix a assume "?R a cur"
        then show "?R a (cur @ [32] @ w)" by (simp only: first_word_append)
      qed
      have "?fw (cur @ [32] @ w) \<in> U" using ok by (simp only: first_word_append) (simp add: words_ok_def)
      with s ok fits have "words_ok f mw U (flush (lines, cur @ [32] @ w))"
        by (simp add: flush_def words_ok_def)
      from Cons.IH [OF ws _ this] fits False show ?thesis by (simp add: Let_def)
    next
      case nofit: False
      from nofit have "?R cur w" by (simp only: fw)
      with ok have "successively ?R ((lines @ [cur]) @ [w])"
        by (intro successively_snoc2) (simp_all add: words_ok_def)
      with ok wne wU fwU have "words_ok f mw U (flush (lines @ [cur], w))"
        by (simp add: flush_def words_ok_def)
      from Cons.IH [OF ws _ this] nofit False wne show ?thesis by (simp add: Let_def)
    qed
  qed
qed

lemma wrap_chars_ok: "chars_ok f mw (flush (wrap_chars f mw text [] []))"
  by (rule wrap_chars_inv) (simp_all add: flush_def chars_ok_def)

lemma wrap_words_ok:
  "words_ok f mw (set (split_ws text)) (flush (wrap_words f mw (split_ws text) [] []))"
proof (rule wrap_words_inv)
  fix w assume "w \<in> set (split_ws text)"
  then show "w \<noteq> [] \<and> (\<forall>c \<in> set w. \<not> isspace c)"
    using split_ws_nonempty [of w "text"] split_ws_no_space [of w "text"] by blast
qed (simp_all add: flush_def words_ok_def)

lemmas wrap_eval = wrap_text_def is_cjk_def split_ws_def isspace_def flush_def text_width_def
  mono10_def Let_def

lemma wrap_cjk_example:
  "wrap_text mono10 [20013, 25991, 25442, 34892, 27979] 25 =
     [[20013, 25991], [25442, 34892], [27979]]"
  by (simp add: wrap_eval)

lemma wrap_words_example:
  "wrap_text mono10 [104, 105, 32, 32, 121, 111, 117, 10, 97, 108, 108] 60 =
     [[104, 105, 32, 121, 111, 117], [97, 108, 108]]"
  by (simp add: wrap_eval)

lemma wrap_wide_unit_example:
  "wrap_text mono10 [20013, 25991] 5 = [[20013], [25991]] \<and>
   wrap_text mono10 [104, 105, 32, 121, 111, 117] 15 = [[104, 105], [121, 111, 117]]"
  by (simp add: wrap_eval)

text \<open>
  C1. The wrapping is greedy, for every text, font and \<open>max_width\<close>. Every returned line
  is rendered at most \<open>max_width\<close> wide, or it is a single unit that alone is wider: one
  character when the text has a character in U+4E00 .. U+9FFF, one whitespace-delimited
  word otherwise. A unit opens a new line only when appending it to the line before
  (after a space, for words) would have exceeded \<open>max_width\<close>. No returned line is empty,
  so that the first unit of a line exists.
\<close>

theorem wrap_text_greedy:
  "((\<exists>c \<in> set text. is_cjk c) \<longrightarrow>
      (\<forall>l \<in> set (wrap_text f text max_width). l \<noteq> [] \<and>
         (text_width f l \<le> max_width \<or> (length l = 1 \<and> max_width < text_width f l))) \<and>
      (\<forall>i. Suc i < length (wrap_text f text max_width) \<longrightarrow>
         max_width < text_width f
           (wrap_text f text max_width ! i @ take 1 (wrap_text f text max_width ! Suc i)))) \<and>
   ((\<forall>c \<in> set text. \<not> is_cjk c) \<longrightarrow>
      (\<forall>l \<in> set (wrap_text f text max_width). l \<noteq> [] \<and>
         (text_width f l \<le> max_width \<or>
          (l \<in> set (split_ws text) \<and> max_width < text_width f l))) \<and>
      (\<forall>i. Suc i < length (wrap_text f text max_width) \<longrightarrow>
         takeWhile (\<lambda>c. \<not> isspace c) (wrap_text f text max_width ! Suc i) \<in> set (split_ws text) \<and>
         max_width < text_width f
           (wrap_text f text max_width ! i @ [32] @
            takeWhile (\<lambda>c. \<not> isspace c) (wrap_text f text max_width ! Suc i))))"
proof (intro conjI impI)
  assume cjk: "\<exists>c \<in> set text. is_cjk c"
  then have L: "wrap_text f text max_width = flush (wrap_chars f max_width text [] [])"
    by (simp add: wrap_text_def)
  have ok: "chars_ok f max_width (wrap_text f text max_width)"
    unfolding L by (rule wrap_chars_ok)
  from ok show "\<forall>l \<in> set (wrap_text f text max_width). l \<noteq> [] \<and>
      (text_width f l \<le> max_width \<or> (length l = 1 \<and> max_width < text_width f l))"
    unfolding chars_ok_def by (meson not_le)
  from ok have "successively (\<lambda>a b. max_width < text_width f (a @ take 1 b))
      (wrap_text f text max_width)"
    unfolding chars_ok_def by (rule conjunct2)
  then show "\<forall>i. Suc i < length (wrap_text f text max_width) \<longrightarrow>
      max_width < text_width f
        (wrap_text f text max_width ! i @ take 1 (wrap_text f text max_width ! Suc i))"
    by (simp only: successively_conv_nth)
next
  assume "\<forall>c \<in> set text. \<not> is_cjk c"
  then have L: "wrap_text f text max_width = flush (wrap_words f max_width (split_ws text) [] [])"
    by (simp add: wrap_text_def)
  have ok: "words_ok f max_width (set (split_ws text)) (wrap_text f text max_width)"
    unfolding L by (rule wrap_words_ok)
  from ok show "\<forall>l \<in> set (wrap_text f text max_width). l \<noteq> [] \<and>
      (text_width f l \<le> max_width \<or> (l \<in> set (split_ws text) \<and> max_width < text_width f l))"
    unfolding words_ok_def by (meson not_le)
  from ok have s: "successively
      (\<lambda>a b. max_width < text_width f (a @ [32] @ takeWhile (\<lambda>c. \<not> isspace c) b))
      (wrap_text f text max_width)"
    unfolding words_ok_def by (rule conjunct2)
  from ok have u: "\<forall>l \<in> set (wrap_text f text max_width).
      takeWhile (\<lambda>c. \<not> isspace c) l \<in> set (split_ws text)"
    unfolding words_ok_def by blast
  show "\<forall>i. Suc i < length (wrap_text f text max_width) \<longrightarrow>
      takeWhile (\<lambda>c. \<not> isspace c) (wrap_text f text max_width ! Suc i) \<in> set (split_ws text) \<and>
      max_width < text_width f
        (wrap_text f text max_width ! i @ [32] @
         takeWhile (\<lambda>c. \<not> isspace c) (wrap_text f text max_width ! Suc i))"
  proof (intro allI impI conjI)
    fix i assume i: "Suc i < length (wrap_text f text max_width)"
    then have "wrap_text f text max_width ! Suc i \<in> set (wrap_text f text max_width)"
      by (rule nth_mem)
    with u show "takeWhile (\<lambda>c. \<not> isspace c) (wrap_text f text max_width ! Suc i)
        \<in> set (split_ws text)" by blast
    from successively_nth [OF s i] show "max_width < text_width f
        (wrap_text f text max_width ! i @ [32] @
         takeWhile (\<lambda>c. \<not> isspace c) (wrap_text f text max_width ! Suc i))" .
  qed
qed

theorem wrap_text_greedy_witness:
  "is_cjk 20013 \<and>
   wrap_text mono10 [20013, 25991, 25442, 34892, 27979] 25 =
     [[20013, 25991], [25442, 34892], [27979]] \<and>
   text_width mono10 [20013, 25991] \<le> 25 \<and>
   25 < text_width mono10 ([20013, 25991] @ take 1 [25442, 34892]) \<and>
   \<not> list_ex is_cjk [104, 105, 32, 32, 121, 111, 117, 10, 97, 108, 108] \<and>
   wrap_text mono10 [104, 105, 32, 32, 121, 111, 117, 10, 97, 108, 108] 60 =
     [[104, 105, 32, 121, 111, 117], [97, 108, 108]] \<and>
   60 < text_width mono10 ([104, 105, 32, 121, 111, 117] @ [32] @
          takeWhile (\<lambda>c. \<not> isspace c) [97, 108, 108])"
proof -
  have h1: "\<exists>c \<in> set [20013, 25991, 25442, 34892, 27979]. is_cjk c"
    by (simp add: is_cjk_def)
  have h2: "\<forall>c \<in> set [104, 105, 32, 32, 121, 111, 117, 10, 97, 108, 108]. \<not> is_cjk c"
    by (simp add: is_cjk_def)
  from wrap_text_greedy [of "[20013, 25991, 25442, 34892, 27979]" mono10 25] h1
  have a: "\<forall>i. Suc i < length (wrap_text mono10 [20013, 25991, 25442, 34892, 27979] 25) \<longrightarrow>
      25 < text_width mono10
        (wrap_text mono10 [20013, 25991, 25442, 34892, 27979] 25 ! i @
         take 1 (wrap_text mono10 [20013, 25991, 25442, 34892, 27979] 25 ! Suc i))"
    by blast
  from wrap_text_greedy [of "[104, 105, 32, 32, 121, 111, 117, 10, 97, 108, 108]" mono10 60] h2
  have b: "\<forall>i. Suc i < length (wrap_text mono10 [104, 105, 32, 32, 121, 111, 117, 10, 97, 108, 108] 60) \<longrightarrow>
      60 < text_width mono10
        (wrap_text mono10 [104, 105, 32, 32, 121, 111, 117, 10, 97, 108, 108] 60 ! i @ [32] @
         takeWhile (\<lambda>c. \<not> isspace c)
           (wrap_text mono10 [104, 105, 32, 32, 121, 111, 117, 10, 97, 108, 108] 60 ! Suc i))"
    by blast
  from a [rule_format, of 0] have a0: "25 < text_width mono10 ([20013, 25991] @ take 1 [25442, 34892])"
    by (simp add: wrap_cjk_example)
  from b [rule_format, of 0] have b0: "60 < text_width mono10 ([104, 105, 32, 121, 111, 117] @ [32] @
          takeWhile (\<lambda>c. \<not> isspace c) [97, 108, 108])"
    by (simp add: wrap_words_example)
  have w: "text_width mono10 [20013, 25991] \<le> 25" by (simp add: text_width_def mono10_def)
  from a0 b0 w h2 show ?thesis
    by (simp add: wrap_cjk_example wrap_words_example is_cjk_def)
qed

section \<open>Wrapping keeps the content\<close>

text \<open>
  C2. Wrapping only re-lines the text. For a text with a character in U+4E00 .. U+9FFF the
  concatenation of the returned lines is the text itself; for a text without one, the
  returned lines joined by single spaces are the whitespace-separated words of the text
  joined by single spaces. This holds for every font and every \<open>max_width\<close>.
\<close>

theorem wrap_text_preserves_content:
  "((\<exists>c \<in> set text. is_cjk c) \<longrightarrow> concat (wrap_text f text max_width) = text) \<and>
   ((\<forall>c \<in> set text. \<not> is_cjk c) \<longrightarrow>
      join [32] (wrap_text f text max_width) = join [32] (split_ws text))"
  by (auto simp: wrap_text_def wrap_chars_content wrap_words_content)

theorem wrap_text_preserves_content_witness:
  "is_cjk 20013 \<and>
   concat (wrap_text mono10 [20013, 25991, 25442, 34892, 27979] 25) =
     [20013, 25991, 25442, 34892, 27979] \<and>
   \<not> list_ex is_cjk [104, 105, 32, 32, 121, 111, 117, 10, 97, 108, 108] \<and>
   join [32] (wrap_text mono10 [104, 105, 32, 32, 121, 111, 117, 10, 97, 108, 108] 60) =
     [104, 105, 32, 121, 111, 117, 32, 97, 108, 108] \<and>
   split_ws [104, 105, 32, 32, 121, 111, 117, 10, 97, 108, 108] =
     [[104, 105], [121, 111, 117], [97, 108, 108]]"
proof -
  have h1: "\<exists>c \<in> set [20013, 25991, 25442, 34892, 27979]. is_cjk c"
    by (simp add: is_cjk_def)
  have h2: "\<forall>c \<in> set [104, 105, 32, 32, 121, 111, 117, 10, 97, 108, 108]. \<not> is_cjk c"
    by (simp add: is_cjk_def)
  have s: "split_ws [104, 105, 32, 32, 121, 111, 117, 10, 97, 108, 108] =
     [[104, 105], [121, 111, 117], [97, 108, 108]]"
    by (simp add: wrap_eval)
  from wrap_text_preserves_content [of "[20013, 25991, 25442, 34892, 27979]" mono10 25] h1
  have a: "concat (wrap_text mono10 [20013, 25991, 25442, 34892, 27979] 25) =
     [20013, 25991, 25442, 34892, 27979]" by blast
  from wrap_text_preserves_content [of "[104, 105, 32, 32, 121, 111, 117, 10, 97, 108, 108]" mono10 60] h2
  have b: "join [32] (wrap_text mono10 [104, 105, 32, 32, 121, 111, 117, 10, 97, 108, 108] 60) =
     join [32] (split_ws [104, 105, 32, 32, 121, 111, 117, 10, 97, 108, 108])" by blast
  from a b s h2 show ?thesis by (simp add: is_cjk_def)
qed

end
